theory Spec2Isabelle
  imports Main "HOL-Library.FSet" "HOL-Library.Product_Lexorder" "HOL-Library.Stream"
begin

section \<open>Data model of minesweeper.py\<close>

text \<open>
  A cell is a Python tuple \<open>(i, j)\<close> of unbounded integers.  Python sets are finite, so
  they are finite sets here; \<open>len\<close> is \<open>fcard\<close>.
\<close>

type_synonym cell = "int \<times> int"

text \<open>Class \<open>Sentence\<close>: a set of cells and a count.  \<open>__eq__\<close> compares both fields, which
  is equality of records.\<close>

record sentence =
  cells :: "cell fset"
  count :: int

text \<open>\<open>Sentence.__init__\<close> copies the cell set, so a sentence never aliases its argument.\<close>

definition Sentence :: "cell fset \<Rightarrow> int \<Rightarrow> sentence" where
  "Sentence cs n = \<lparr>cells = cs, count = n\<rparr>"

text \<open>\<open>known_mines\<close>: \<open>if len(self.cells) <= self.count: return self.cells.copy()\<close>,
  otherwise \<open>None\<close>.\<close>

definition known_mines :: "sentence \<Rightarrow> cell fset option" where
  "known_mines s = (if int (fcard (cells s)) \<le> count s then Some (cells s) else None)"

text \<open>\<open>known_safes\<close>: \<open>if self.count == 0: return self.cells.copy()\<close>, otherwise \<open>None\<close>.\<close>

definition known_safes :: "sentence \<Rightarrow> cell fset option" where
  "known_safes s = (if count s = 0 then Some (cells s) else None)"

text \<open>\<open>Sentence.mark_mine\<close> and \<open>Sentence.mark_safe\<close> mutate the sentence in place; the model
  returns the updated sentence.\<close>

definition mark_mine :: "sentence \<Rightarrow> cell \<Rightarrow> sentence" where
  "mark_mine s c =
     (if c |\<in>| cells s then s\<lparr>count := count s - 1, cells := cells s |-| {|c|}\<rparr> else s)"

definition mark_safe :: "sentence \<Rightarrow> cell \<Rightarrow> sentence" where
  "mark_safe s c = (if c |\<in>| cells s then s\<lparr>cells := cells s |-| {|c|}\<rparr> else s)"

text \<open>The invariant the specification states for a sentence.\<close>

definition sentence_inv :: "sentence \<Rightarrow> bool" where
  "sentence_inv s = (0 \<le> count s \<and> count s \<le> int (fcard (cells s)))"

text \<open>Class \<open>MinesweeperAI\<close>.  The knowledge base is a Python list of sentence objects; no
  object occurs twice in it (every append creates a fresh object), so a list of values
  with positions as identities models it.\<close>

record minesweeper_ai =
  height :: int
  width :: int
  moves_made :: "cell fset"
  mines :: "cell fset"
  safes :: "cell fset"
  knowledge :: "sentence list"

definition MinesweeperAI :: "int \<Rightarrow> int \<Rightarrow> minesweeper_ai" where
  "MinesweeperAI h w =
     \<lparr>height = h, width = w, moves_made = {||}, mines = {||}, safes = {||}, knowledge = []\<rparr>"

text \<open>\<open>MinesweeperAI.mark_mine\<close> and \<open>MinesweeperAI.mark_safe\<close>: add the cell to the global
  set, then call the sentence method on every sentence of the knowledge base.\<close>

definition ai_mark_mine :: "minesweeper_ai \<Rightarrow> cell \<Rightarrow> minesweeper_ai" where
  "ai_mark_mine ai c =
     ai\<lparr>mines := finsert c (mines ai), knowledge := map (\<lambda>s. mark_mine s c) (knowledge ai)\<rparr>"

definition ai_mark_safe :: "minesweeper_ai \<Rightarrow> cell \<Rightarrow> minesweeper_ai" where
  "ai_mark_safe ai c =
     ai\<lparr>safes := finsert c (safes ai), knowledge := map (\<lambda>s. mark_safe s c) (knowledge ai)\<rparr>"

section \<open>The board\<close>

text \<open>
  Class \<open>Minesweeper\<close>.  Its fields \<open>height\<close>, \<open>width\<close> and \<open>mines\<close> carry the prefix
  \<open>b_\<close> here, the names without prefix being the fields of \<open>MinesweeperAI\<close>.
\<close>

datatype error = ValueError | IndexError

record minesweeper =
  b_height :: int
  b_width :: int
  b_mines :: "cell fset"
  board :: "bool list list"
  mines_found :: "cell fset"

text \<open>
  \<open>random.randrange(n)\<close> raises \<open>ValueError\<close> for \<open>n \<le> 0\<close> and returns some \<open>0 \<le> r < n\<close>
  otherwise.  The random source is a stream of naturals, one consumed by each call and
  reduced modulo \<open>n\<close>, so that every sequence of outcomes comes from some stream.
\<close>

definition randrange :: "int \<Rightarrow> nat stream \<Rightarrow> error + int \<times> nat stream" where
  "randrange n rs = (if n \<le> 0 then Inl ValueError else Inr (int (shd rs) mod n, stl rs))"

text \<open>An empty field: \<open>range\<close> of a negative number is empty.\<close>

definition empty_field :: "int \<Rightarrow> int \<Rightarrow> bool list list" where
  "empty_field h w = replicate (nat h) (replicate (nat w) False)"

text \<open>
  The loop \<open>while len(self.mines) != mines\<close>.  The drawn coordinates are within the field,
  so the reads and the write are in range.  \<open>None\<close> is a loop that never ends.
\<close>

definition add_mine :: "minesweeper \<Rightarrow> int \<Rightarrow> int \<Rightarrow> minesweeper" where
  "add_mine b i j =
     (if \<not> board b ! nat i ! nat j
      then b\<lparr>b_mines := finsert (i, j) (b_mines b),
             board := (board b)[nat i := (board b ! nat i)[nat j := True]]\<rparr>
      else b)"

partial_function (option) place_mines ::
  "minesweeper \<Rightarrow> int \<Rightarrow> nat stream \<Rightarrow> (error + minesweeper) option" where
  "place_mines b m rs =
     (if int (fcard (b_mines b)) \<noteq> m
      then (case randrange (b_height b) rs of
              Inl e \<Rightarrow> Some (Inl e)
            | Inr (i, rs1) \<Rightarrow>
                (case randrange (b_width b) rs1 of
                   Inl e \<Rightarrow> Some (Inl e)
                 | Inr (j, rs2) \<Rightarrow> place_mines (add_mine b i j) m rs2))
      else Some (Inr b))"

declare place_mines.simps [code]

text \<open>\<open>Minesweeper.__init__(height, width, mines)\<close>, with the random source.\<close>

definition Minesweeper :: "int \<Rightarrow> int \<Rightarrow> int \<Rightarrow> nat stream \<Rightarrow> (error + minesweeper) option" where
  "Minesweeper h w m rs =
     map_option (map_sum id (\<lambda>b. b\<lparr>mines_found := {||}\<rparr>))
       (place_mines \<lparr>b_height = h, b_width = w, b_mines = {||}, board = empty_field h w,
                     mines_found = {||}\<rparr> m rs)"

text \<open>What the constructor maintains: the field has \<open>height\<close> rows of \<open>width\<close> entries (none
  for a negative number), and every mine is a cell of the field.\<close>

definition well_formed :: "minesweeper \<Rightarrow> bool" where
  "well_formed b =
     (length (board b) = nat (b_height b)
      \<and> list_all (\<lambda>row. length row = nat (b_width b)) (board b)
      \<and> fset (b_mines b) \<subseteq> {0 ..< b_height b} \<times> {0 ..< b_width b})"

text \<open>What a returning placement loop has achieved, from a well-formed board.\<close>

definition placed :: "minesweeper \<Rightarrow> int \<Rightarrow> error + minesweeper \<Rightarrow> bool" where
  "placed b m r =
     (well_formed b \<longrightarrow>
      (case r of
         Inl e \<Rightarrow> b_height b \<le> 0 \<or> b_width b \<le> 0
       | Inr b' \<Rightarrow> well_formed b' \<and> b_height b' = b_height b \<and> b_width b' = b_width b
                  \<and> int (fcard (b_mines b')) = m))"




text \<open>Python list indexing: a negative index counts from the end, and an index outside
  \<open>-len \<le> i < len\<close> raises \<open>IndexError\<close>.\<close>

definition subscript :: "'a list \<Rightarrow> int \<Rightarrow> error + 'a" where
  "subscript xs i =
     (if 0 \<le> i \<and> i < int (length xs) then Inr (xs ! nat i)
      else if i < 0 \<and> - int (length xs) \<le> i then Inr (xs ! nat (int (length xs) + i))
      else Inl IndexError)"

definition is_mine :: "minesweeper \<Rightarrow> cell \<Rightarrow> error + bool" where
  "is_mine b c =
     (case subscript (board b) (fst c) of
        Inl e \<Rightarrow> Inl e
      | Inr row \<Rightarrow> subscript row (snd c))"

text \<open>\<open>nearby_mines\<close>: the 3 x 3 block around the cell, the cell itself skipped, a location
  read only when it is in bounds.\<close>

definition block :: "cell \<Rightarrow> cell list" where
  "block c = concat (map (\<lambda>i. map (\<lambda>j. (i, j)) [snd c - 1 .. snd c + 1]) [fst c - 1 .. fst c + 1])"

definition count_mine :: "minesweeper \<Rightarrow> cell \<Rightarrow> cell \<Rightarrow> int \<Rightarrow> int" where
  "count_mine b c l n =
     (if l = c then n
      else if 0 \<le> fst l \<and> fst l < b_height b \<and> 0 \<le> snd l \<and> snd l < b_width b
      then (if board b ! nat (fst l) ! nat (snd l) then n + 1 else n)
      else n)"

definition nearby_mines :: "minesweeper \<Rightarrow> cell \<Rightarrow> int" where
  "nearby_mines b c = fold (count_mine b c) (block c) 0"

section \<open>add_knowledge\<close>

text \<open>
  \<open>for cell in safes: self.mark_safe(cell)\<close> and \<open>for cell in mines: self.mark_mine(cell)\<close>
  iterate over a copy of a set.  Python fixes no iteration order for a set; the model
  iterates in the order of the cells, and \<open>mark_safes_any_order\<close> and
  \<open>mark_mines_any_order\<close> below show that every other order gives the same state.
\<close>

definition mark_safes :: "minesweeper_ai \<Rightarrow> cell fset \<Rightarrow> minesweeper_ai" where
  "mark_safes ai S = fold (\<lambda>c a. ai_mark_safe a c) (sorted_list_of_fset S) ai"

definition mark_mines :: "minesweeper_ai \<Rightarrow> cell fset \<Rightarrow> minesweeper_ai" where
  "mark_mines ai S = fold (\<lambda>c a. ai_mark_mine a c) (sorted_list_of_fset S) ai"

text \<open>
  Step 3a: the two nested \<open>range\<close> loops visit the 3 x 3 block around the cell row by
  row; a location off the board or equal to the cell is skipped, and a location that is
  in none of \<open>moves_made\<close>, \<open>mines\<close>, \<open>safes\<close> is added to \<open>newCells\<close>.
\<close>

definition off_board :: "minesweeper_ai \<Rightarrow> cell \<Rightarrow> bool" where
  "off_board ai l = (fst l < 0 \<or> fst l > height ai - 1 \<or> snd l < 0 \<or> snd l > width ai - 1)"

definition add_empty :: "minesweeper_ai \<Rightarrow> cell \<Rightarrow> cell \<Rightarrow> cell fset \<Rightarrow> cell fset" where
  "add_empty ai c l newCells =
     (if off_board ai l then newCells
      else if l = c then newCells
      else if l |\<notin>| moves_made ai \<and> l |\<notin>| mines ai \<and> l |\<notin>| safes ai then finsert l newCells
      else newCells)"

definition new_cells :: "minesweeper_ai \<Rightarrow> cell \<Rightarrow> cell fset" where
  "new_cells ai c = fold (add_empty ai c) (block c) {||}"

text \<open>Step 3b: a sentence over the new cells with the count as it was passed in.\<close>

definition new_sentence :: "minesweeper_ai \<Rightarrow> cell \<Rightarrow> int \<Rightarrow> minesweeper_ai" where
  "new_sentence ai c n =
     (let newCells = new_cells ai c
      in if fcard newCells \<noteq> 0
         then ai\<lparr>knowledge := knowledge ai @ [Sentence newCells n]\<rparr>
         else ai)"

text \<open>
  Step 4, \<open>for sentence in self.knowledge\<close>: the list iterator holds an index \<open>i\<close> and stops
  when \<open>i\<close> reaches the current length, so after a removal the element that moved into
  position \<open>i\<close> is skipped.  The sentence is marked in place along with the others, and
  \<open>self.knowledge.remove(sentence)\<close> removes the first element equal to its value after
  marking.
\<close>

definition retire :: "minesweeper_ai \<Rightarrow> nat \<Rightarrow> minesweeper_ai" where
  "retire ai i = ai\<lparr>knowledge := remove1 (knowledge ai ! i) (knowledge ai)\<rparr>"

definition resolve_step :: "minesweeper_ai \<Rightarrow> nat \<Rightarrow> int \<Rightarrow> minesweeper_ai \<times> int" where
  "resolve_step ai i cycles =
     (case known_safes (knowledge ai ! i) of
        Some ss \<Rightarrow> (retire (mark_safes ai ss) i, 2)
      | None \<Rightarrow>
          (case known_mines (knowledge ai ! i) of
             Some ms \<Rightarrow> (retire (mark_mines ai ms) i, 2)
           | None \<Rightarrow> (ai, cycles)))"

lemma length_mark_safe_fold:
  "length (knowledge (fold (\<lambda>c a. ai_mark_safe a c) xs ai)) = length (knowledge ai)"
  by (induction xs arbitrary: ai) (simp_all add: ai_mark_safe_def)

lemma length_mark_mine_fold:
  "length (knowledge (fold (\<lambda>c a. ai_mark_mine a c) xs ai)) = length (knowledge ai)"
  by (induction xs arbitrary: ai) (simp_all add: ai_mark_mine_def)

lemma length_mark_safes: "length (knowledge (mark_safes ai S)) = length (knowledge ai)"
  by (simp add: mark_safes_def length_mark_safe_fold)

lemma length_mark_mines: "length (knowledge (mark_mines ai S)) = length (knowledge ai)"
  by (simp add: mark_mines_def length_mark_mine_fold)

lemma length_retire: "length (knowledge (retire ai i)) \<le> length (knowledge ai)"
  by (simp add: retire_def length_remove1)

lemma length_resolve_step:
  "length (knowledge (fst (resolve_step ai i cycles))) \<le> length (knowledge ai)"
proof (cases "known_safes (knowledge ai ! i)")
  case (Some ss)
  then show ?thesis
    using length_retire [of "mark_safes ai ss" i]
    by (simp add: resolve_step_def length_mark_safes)
next
  case None
  then show ?thesis
    using length_retire [of "mark_mines ai ms" i for ms]
    by (auto simp: resolve_step_def length_mark_mines split: option.splits)
qed

function resolve_pass :: "minesweeper_ai \<Rightarrow> nat \<Rightarrow> int \<Rightarrow> minesweeper_ai \<times> int" where
  "resolve_pass ai i cycles =
     (if i < length (knowledge ai)
      then (case resolve_step ai i cycles of (ai', cycles') \<Rightarrow> resolve_pass ai' (i + 1) cycles')
      else (ai, cycles))"
  by pat_completeness auto
termination
proof (relation "measure (\<lambda>(ai, i, cycles). length (knowledge ai) - i)", goal_cases)
  case 1
  show ?case by simp
next
  case (2 ai i cycles ai' cycles')
  then show ?case
    using length_resolve_step [of ai i cycles] by (cases "resolve_step ai i cycles") auto
qed

text \<open>
  Step 5, the body of the two nested loops for one pair \<open>(sentenceA, sentenceB)\<close>.  The
  knowledge base is only appended to, and \<open>cycles\<close> is set to 2 with every append.
\<close>

definition infer_append :: "sentence list \<times> int \<Rightarrow> bool \<Rightarrow> sentence \<Rightarrow> sentence list \<times> int" where
  "infer_append st guard newSentence =
     (if guard \<and> count newSentence > 0 \<and> newSentence \<notin> set (fst st)
      then (fst st @ [newSentence], 2) else st)"

definition infer_pair :: "sentence list \<times> int \<Rightarrow> sentence \<Rightarrow> sentence \<Rightarrow> sentence list \<times> int" where
  "infer_pair st A B =
     (if A = B then st
      else if fcard (cells A) = 0 \<or> fcard (cells B) = 0 then st
      else
        (let AB = cells A |-| cells B;
             BA = cells B |-| cells A;
             st1 = infer_append st (fcard BA = 0 \<and> fcard AB \<noteq> 0) (Sentence AB (count A - count B))
         in infer_append st1 (fcard AB = 0 \<and> fcard BA \<noteq> 0) (Sentence BA (count B - count A))))"

text \<open>
  The loops \<open>for sentenceB in self.knowledge\<close> and \<open>for sentenceA in self.knowledge\<close> run over
  the list while it grows, so neither is bounded by the length at its start: they are
  partial functions, and \<open>None\<close> is a loop that never ends.
\<close>

partial_function (option) infer_inner ::
  "sentence list \<times> int \<Rightarrow> sentence \<Rightarrow> nat \<Rightarrow> (sentence list \<times> int) option" where
  "infer_inner st A j =
     (if j < length (fst st) then infer_inner (infer_pair st A (fst st ! j)) A (j + 1)
      else Some st)"

partial_function (option) infer_outer ::
  "sentence list \<times> int \<Rightarrow> nat \<Rightarrow> (sentence list \<times> int) option" where
  "infer_outer st i =
     (if i < length (fst st)
      then Option.bind (infer_inner st (fst st ! i) 0) (\<lambda>st'. infer_outer st' (i + 1))
      else Some st)"

declare infer_inner.simps [code]
declare infer_outer.simps [code]

text \<open>One turn of the \<open>while cycles > 0\<close> loop, and the loop.\<close>

definition infer_pass :: "minesweeper_ai \<times> int \<Rightarrow> (minesweeper_ai \<times> int) option" where
  "infer_pass p =
     map_option (\<lambda>st'. ((fst p)\<lparr>knowledge := fst st'\<rparr>, snd st'))
       (infer_outer (knowledge (fst p), snd p) 0)"

partial_function (option) fixpoint_loop :: "minesweeper_ai \<Rightarrow> int \<Rightarrow> minesweeper_ai option" where
  "fixpoint_loop ai cycles =
     (if cycles > 0
      then Option.bind (infer_pass (resolve_pass ai 0 cycles))
             (\<lambda>p. fixpoint_loop (fst p) (snd p - 1))
      else Some ai)"

declare fixpoint_loop.simps [code]

definition add_knowledge :: "minesweeper_ai \<Rightarrow> cell \<Rightarrow> int \<Rightarrow> minesweeper_ai option" where
  "add_knowledge ai c n =
     (let ai1 = ai\<lparr>moves_made := finsert c (moves_made ai)\<rparr>;
          ai2 = ai_mark_safe ai1 c;
          ai3 = new_sentence ai2 c n
      in fixpoint_loop ai3 1)"

section \<open>A game on a board of one row\<close>

text \<open>
  A board of height 1 and width 5 with its one mine at \<open>(0, 2)\<close>, and the states of a fresh
  \<open>MinesweeperAI(1, 5)\<close> after probing \<open>(0, 4)\<close>, \<open>(0, 3)\<close>, \<open>(0, 1)\<close> and \<open>(0, 0)\<close> in turn.
\<close>

definition row_board :: minesweeper where
  "row_board = \<lparr>b_height = 1, b_width = 5, b_mines = {|(0, 2)|},
     board = [[False, False, True, False, False]], mines_found = {||}\<rparr>"

definition probed1 :: minesweeper_ai where
  "probed1 = \<lparr>height = 1, width = 5, moves_made = {|(0, 4)|}, mines = {||},
     safes = {|(0, 3), (0, 4)|}, knowledge = []\<rparr>"

definition probed2 :: minesweeper_ai where
  "probed2 = \<lparr>height = 1, width = 5, moves_made = {|(0, 3), (0, 4)|}, mines = {|(0, 2)|},
     safes = {|(0, 3), (0, 4)|}, knowledge = []\<rparr>"

definition probed3 :: minesweeper_ai where
  "probed3 = \<lparr>height = 1, width = 5, moves_made = {|(0, 1), (0, 3), (0, 4)|},
     mines = {|(0, 0), (0, 2)|}, safes = {|(0, 1), (0, 3), (0, 4)|}, knowledge = []\<rparr>"

definition probed4 :: minesweeper_ai where
  "probed4 = \<lparr>height = 1, width = 5, moves_made = {|(0, 0), (0, 1), (0, 3), (0, 4)|},
     mines = {|(0, 0), (0, 2)|}, safes = {|(0, 0), (0, 1), (0, 3), (0, 4)|}, knowledge = []\<rparr>"

text \<open>The same board with a second mine, at \<open>(0, 0)\<close>.\<close>

definition mined_row_board :: minesweeper where
  "mined_row_board = \<lparr>b_height = 1, b_width = 5, b_mines = {|(0, 0), (0, 2)|},
     board = [[True, False, True, False, False]], mines_found = {||}\<rparr>"

text \<open>The count that step 2 of the specification asks for: the reported count minus the
  number of in-bounds neighbours of the cell that are already in \<open>mines\<close>.\<close>

definition known_mine_neighbours :: "minesweeper_ai \<Rightarrow> cell \<Rightarrow> cell list" where
  "known_mine_neighbours ai c =
     filter (\<lambda>l. \<not> off_board ai l \<and> l \<noteq> c \<and> l |\<in>| mines ai) (block c)"

definition adjusted_count :: "minesweeper_ai \<Rightarrow> cell \<Rightarrow> int \<Rightarrow> int" where
  "adjusted_count ai c n = n - int (length (known_mine_neighbours ai c))"

section \<open>What the inference pass derives\<close>

text \<open>
  The sentence that the specification derives from a pair: for a non-empty \<open>A\<close> whose
  cells are a proper subset of those of \<open>B\<close>, the cells of \<open>B\<close> without those of \<open>A\<close>, with
  the difference of the counts, provided that difference is positive.
\<close>

definition derives :: "sentence \<Rightarrow> sentence \<Rightarrow> sentence \<Rightarrow> bool" where
  "derives A B s =
     (cells A \<noteq> {||} \<and> cells A |\<subset>| cells B \<and> 0 < count B - count A
      \<and> s = Sentence (cells B |-| cells A) (count B - count A))"

text \<open>A knowledge base holds what a pair derives, in either order of the pair.\<close>

definition closed_pair :: "sentence list \<Rightarrow> sentence \<Rightarrow> sentence \<Rightarrow> bool" where
  "closed_pair kb A B = ((\<forall>s. derives A B s \<longrightarrow> s \<in> set kb) \<and> (\<forall>s. derives B A s \<longrightarrow> s \<in> set kb))"

text \<open>
  \<open>kb'\<close> is \<open>kb\<close> with new sentences appended: no new sentence occurs twice or is in \<open>kb\<close>
  already, and each is derived from a pair of \<open>kb'\<close>.
\<close>

definition inferred :: "sentence list \<Rightarrow> sentence list \<Rightarrow> bool" where
  "inferred kb kb' =
     (\<exists>new. kb' = kb @ new \<and> distinct new \<and> set new \<inter> set kb = {}
        \<and> (\<forall>s \<in> set new. \<exists>A \<in> set kb'. \<exists>B \<in> set kb'. derives A B s))"

section \<open>Measures for the loops of add_knowledge\<close>

text \<open>The cells that occur in some sentence of a knowledge base.\<close>

primrec unknown :: "sentence list \<Rightarrow> cell fset" where
  "unknown [] = {||}"
| "unknown (s # kb) = cells s |\<union>| unknown kb"

text \<open>
  Counts can be negative, so a derived count \<open>count B - count A\<close> can exceed every count
  present.  \<open>debt\<close> bounds what a negative count can add, and the \<open>weight\<close> of a derived
  sentence is at most that of the larger sentence of its pair, since it has fewer cells.
\<close>

definition debt :: "sentence list \<Rightarrow> nat" where
  "debt kb = sum_list (map (\<lambda>s. nat (- count s)) kb)"

definition weight :: "nat \<Rightarrow> sentence \<Rightarrow> int" where
  "weight d s = count s + int d * int (fcard (cells s))"

text \<open>The sentences that the inference pass may still append: a finite set, which an
  append does not change.  \<open>todo\<close> counts those not yet in the knowledge base.\<close>

definition cand :: "sentence list \<Rightarrow> sentence set" where
  "cand kb =
     {s. cells s \<noteq> {||} \<and> 0 < count s
         \<and> (\<exists>B \<in> set kb. cells s |\<subseteq>| cells B \<and> weight (debt kb) s \<le> weight (debt kb) B)}"

definition todo :: "sentence list \<Rightarrow> nat" where
  "todo kb = card (cand kb - set kb)"

text \<open>What the inference loops do to their state: they append candidates, and set
  \<open>cycles\<close> to 2 when they append.\<close>

definition grown :: "sentence list \<times> int \<Rightarrow> sentence list \<times> int \<Rightarrow> bool" where
  "grown st st' =
     ((\<exists>new. fst st' = fst st @ new)
      \<and> cand (fst st') = cand (fst st)
      \<and> unknown (fst st') = unknown (fst st)
      \<and> todo (fst st') + length (fst st') = todo (fst st) + length (fst st)
      \<and> (st' = st \<or> snd st' = 2 \<and> length (fst st) < length (fst st')))"

text \<open>
  The measure of the \<open>while\<close> loop: first the number of cells still in some sentence, then
  the appends still possible and the length of the knowledge base.  A turn of the loop
  either leaves the state and \<open>cycles\<close> as they are, or sets \<open>cycles\<close> to 2 and makes the
  measure smaller.
\<close>

definition progress :: "sentence list \<Rightarrow> nat \<times> nat" where
  "progress kb = (fcard (unknown kb), 2 * todo kb + length kb)"

definition advanced :: "minesweeper_ai \<times> int \<Rightarrow> minesweeper_ai \<times> int \<Rightarrow> bool" where
  "advanced p p' =
     (p' = p \<or>
      snd p' = 2 \<and> (progress (knowledge (fst p')), progress (knowledge (fst p)))
                     \<in> less_than <*lex*> less_than)"

section \<open>Sentences\<close>

lemmas fcard_eval = fcard_fempty fcard_finsert_if

lemma mark_mine_absent: "c |\<notin>| cells s \<Longrightarrow> mark_mine s c = s"
  by (simp add: mark_mine_def)

lemma mark_safe_absent: "c |\<notin>| cells s \<Longrightarrow> mark_safe s c = s"
  by (simp add: mark_safe_def)

lemma cells_mark_mine: "cells (mark_mine s c) = cells s |-| {|c|}"
  by (auto simp: mark_mine_def)

lemma cells_mark_safe: "cells (mark_safe s c) = cells s |-| {|c|}"
  by (auto simp: mark_safe_def)

lemma mark_mine_twice: "mark_mine (mark_mine s c) c = mark_mine s c"
  by (rule mark_mine_absent) (simp add: cells_mark_mine)

lemma mark_safe_twice: "mark_safe (mark_safe s c) c = mark_safe s c"
  by (rule mark_safe_absent) (simp add: cells_mark_safe)

lemma known_within_invariant:
  assumes "count s \<le> int (fcard (cells s))"
  shows "(count s = 0 \<longrightarrow> known_safes s = Some (cells s))
       \<and> (count s = int (fcard (cells s)) \<and> cells s \<noteq> {||} \<longrightarrow> known_mines s = Some (cells s))
       \<and> (count s \<noteq> 0 \<and> count s \<noteq> int (fcard (cells s))
            \<longrightarrow> known_safes s = None \<and> known_mines s = None)"
  using assms by (simp add: known_safes_def known_mines_def)

text \<open>
  Claim C9: \<open>known_mines\<close> returns the cell set in every state with \<open>count \<ge> |cells|\<close>, and
  none exactly when \<open>count < |cells|\<close>.  A state with \<open>count > |cells|\<close> is reached by
  \<open>mark_safe\<close> on a sentence with \<open>count = |cells|\<close>, and the empty sentence with count 0
  yields the empty set.
\<close>

theorem known_mines_at_least:
  "(int (fcard (cells s)) \<le> count s \<longrightarrow> known_mines s = Some (cells s))
   \<and> (known_mines s = None \<longleftrightarrow> count s < int (fcard (cells s)))
   \<and> int (fcard (cells (mark_safe (Sentence {|(0, 0)|} 1) (0, 0))))
        < count (mark_safe (Sentence {|(0, 0)|} 1) (0, 0))
   \<and> known_mines (mark_safe (Sentence {|(0, 0)|} 1) (0, 0)) = Some {||}
   \<and> known_mines (Sentence {||} 0) = Some {||}"
  by (auto simp: known_mines_def mark_safe_def Sentence_def fcard_eval)

theorem known_mines_at_least_witness:
  "known_mines (Sentence {|(0, 0)|} 2) = Some {|(0, 0)|}
   \<and> known_mines (Sentence {|(0, 0), (0, 1)|} 1) = None"
  using known_mines_at_least [of "Sentence {|(0, 0)|} 2"]
    known_mines_at_least [of "Sentence {|(0, 0), (0, 1)|} 1"]
  by (simp add: Sentence_def fcard_eval)

text \<open>
  Claim C3, as stated: from \<open>0 \<le> count \<le> |cells|\<close>, the invariant still holds after
  \<open>mark_mine\<close> or \<open>mark_safe\<close>.  It fails for \<open>mark_mine\<close> of a member when the count is 0
  (the count becomes -1) and for \<open>mark_safe\<close> of a member when the count is \<open>|cells|\<close>.
\<close>

theorem mark_invariant_counterexample:
  "sentence_inv (Sentence {|(0, 0)|} 0) \<and> \<not> sentence_inv (mark_mine (Sentence {|(0, 0)|} 0) (0, 0))
   \<and> sentence_inv (Sentence {|(0, 0)|} 1) \<and> \<not> sentence_inv (mark_safe (Sentence {|(0, 0)|} 1) (0, 0))"
  by (simp add: sentence_inv_def Sentence_def mark_mine_def mark_safe_def fcard_eval)

text \<open>
  Claim C3, amended: from \<open>0 \<le> count \<le> |cells|\<close>, the invariant still holds after
  \<open>mark_mine(cell)\<close> unless the cell is in the sentence and the count is 0, and after
  \<open>mark_safe(cell)\<close> unless the cell is in the sentence and the count equals \<open>|cells|\<close>.
\<close>

theorem mark_invariant:
  assumes "sentence_inv s"
  shows "(c |\<notin>| cells s \<or> count s \<noteq> 0 \<longrightarrow> sentence_inv (mark_mine s c))
       \<and> (c |\<notin>| cells s \<or> count s \<noteq> int (fcard (cells s)) \<longrightarrow> sentence_inv (mark_safe s c))"
proof -
  have "c |\<in>| cells s \<Longrightarrow> int (fcard (cells s |-| {|c|})) = int (fcard (cells s)) - 1"
    using fcard_Suc_fminus1 [of c "cells s"] by linarith
  with assms show ?thesis
    by (auto simp: sentence_inv_def mark_mine_def mark_safe_def)
qed

theorem mark_invariant_witness:
  "sentence_inv (Sentence {|(0, 0), (0, 1)|} 1)
   \<and> sentence_inv (mark_mine (Sentence {|(0, 0), (0, 1)|} 1) (0, 0))
   \<and> sentence_inv (mark_safe (Sentence {|(0, 0), (0, 1)|} 1) (0, 0))"
proof -
  have h: "sentence_inv (Sentence {|(0, 0), (0, 1)|} 1)"
    by (simp add: sentence_inv_def Sentence_def fcard_eval)
  show ?thesis
    using h mark_invariant [OF h, of "(0, 0)"] by (simp add: Sentence_def fcard_eval)
qed

section \<open>Global marking\<close>

text \<open>
  Claim C8: calling \<open>MinesweeperAI.mark_safe\<close> (respectively \<open>mark_mine\<close>) a second time with
  the same cell leaves the whole state as it is after the first call.
\<close>

theorem ai_mark_idempotent:
  "ai_mark_safe (ai_mark_safe ai c) c = ai_mark_safe ai c
   \<and> ai_mark_mine (ai_mark_mine ai c) c = ai_mark_mine ai c"
  by (simp add: ai_mark_safe_def ai_mark_mine_def mark_safe_twice mark_mine_twice comp_def)

section \<open>The game on the board of one row\<close>

lemma row_board_constructed: "Minesweeper 1 5 1 (0 ## 2 ## sconst 0) = Some (Inr row_board)"
  by (simp add: Minesweeper_def place_mines.simps randrange_def empty_field_def add_mine_def
      fcard_eval row_board_def eval_nat_numeral)

lemma row_board_counts:
  "nearby_mines row_board (0, 4) = 0 \<and> nearby_mines row_board (0, 3) = 1
   \<and> nearby_mines row_board (0, 1) = 1 \<and> nearby_mines row_board (0, 0) = 0"
  by code_simp

lemma row_board_safe_cells:
  "is_mine row_board (0, 4) = Inr False \<and> is_mine row_board (0, 3) = Inr False
   \<and> is_mine row_board (0, 1) = Inr False \<and> is_mine row_board (0, 0) = Inr False"
  by code_simp

lemma probe1: "add_knowledge (MinesweeperAI 1 5) (0, 4) 0 = Some probed1"
  by code_simp

lemma probe2: "add_knowledge probed1 (0, 3) 1 = Some probed2"
  by code_simp

lemma probe3: "add_knowledge probed2 (0, 1) 1 = Some probed3"
  by code_simp

lemma probe4: "add_knowledge probed3 (0, 0) 0 = Some probed4"
  by code_simp

lemma new_sentence_count:
  "knowledge (new_sentence ai c n) =
     (if new_cells ai c = {||} then knowledge ai
      else knowledge ai @ [Sentence (new_cells ai c) n])"
  by (simp add: new_sentence_def Let_def)

lemma probe3_sentence:
  "knowledge (new_sentence
      (ai_mark_safe (probed2\<lparr>moves_made := finsert (0, 1) (moves_made probed2)\<rparr>) (0, 1)) (0, 1) 1)
   = [Sentence {|(0, 0)|} 1]"
  by code_simp

lemma probe3_adjusted:
  "adjusted_count
      (ai_mark_safe (probed2\<lparr>moves_made := finsert (0, 1) (moves_made probed2)\<rparr>) (0, 1)) (0, 1) 1
   = 0"
  by code_simp

lemma mined_row_board_constructed:
  "Minesweeper 1 5 2 (0 ## 0 ## 0 ## 2 ## sconst 0) = Some (Inr mined_row_board)"
proof -
  have "{|(0, 2), (0, 0)|} = {|(0 :: int, 0 :: int), (0, 2)|}" by auto
  then show ?thesis
    by (simp add: Minesweeper_def place_mines.simps randrange_def empty_field_def add_mine_def
        fcard_eval mined_row_board_def eval_nat_numeral)
qed

lemma mined_row_board_counts:
  "nearby_mines mined_row_board (0, 4) = 0 \<and> nearby_mines mined_row_board (0, 3) = 1
   \<and> nearby_mines mined_row_board (0, 1) = 2"
  by code_simp

lemma mined_row_board_safe_cells:
  "is_mine mined_row_board (0, 4) = Inr False \<and> is_mine mined_row_board (0, 3) = Inr False
   \<and> is_mine mined_row_board (0, 1) = Inr False"
  by code_simp

lemma mined_probe3_sentence:
  "knowledge (new_sentence
      (ai_mark_safe (probed2\<lparr>moves_made := finsert (0, 1) (moves_made probed2)\<rparr>) (0, 1)) (0, 1) 2)
   = [Sentence {|(0, 0)|} 2]"
  by code_simp

text \<open>
  Claim C5: a sentence with \<open>count = 0\<close> yields its cells from \<open>known_safes\<close>, a non-empty
  sentence with \<open>count = |cells|\<close> yields its cells from \<open>known_mines\<close>, and in every other
  state both return none.  \<open>known_mines\<close> tests \<open>len(self.cells) <= self.count\<close> where its
  comment says equal: the sentence \<open>{(0, 0)} = 2\<close> is in such another state, and
  \<open>known_mines\<close> returns its cells.  \<open>add_knowledge\<close> builds that sentence on the board of
  one row with mines at \<open>(0, 0)\<close> and \<open>(0, 2)\<close>, in the third of three probes of cells
  without a mine that report the board's counts.
\<close>

theorem known_mines_over_count:
  "count (Sentence {|(0, 0)|} 2) \<noteq> 0
   \<and> count (Sentence {|(0, 0)|} 2) \<noteq> int (fcard (cells (Sentence {|(0, 0)|} 2)))
   \<and> known_safes (Sentence {|(0, 0)|} 2) = None
   \<and> known_mines (Sentence {|(0, 0)|} 2) = Some {|(0, 0)|}
   \<and> Minesweeper 1 5 2 (0 ## 0 ## 0 ## 2 ## sconst 0) = Some (Inr mined_row_board)
   \<and> is_mine mined_row_board (0, 4) = Inr False
   \<and> add_knowledge (MinesweeperAI 1 5) (0, 4) (nearby_mines mined_row_board (0, 4)) = Some probed1
   \<and> is_mine mined_row_board (0, 3) = Inr False
   \<and> add_knowledge probed1 (0, 3) (nearby_mines mined_row_board (0, 3)) = Some probed2
   \<and> is_mine mined_row_board (0, 1) = Inr False
   \<and> knowledge (new_sentence
        (ai_mark_safe (probed2\<lparr>moves_made := finsert (0, 1) (moves_made probed2)\<rparr>) (0, 1))
        (0, 1) (nearby_mines mined_row_board (0, 1))) = [Sentence {|(0, 0)|} 2]"
proof -
  have "count (Sentence {|(0, 0)|} 2) \<noteq> 0
      \<and> count (Sentence {|(0, 0)|} 2) \<noteq> int (fcard (cells (Sentence {|(0, 0)|} 2)))
      \<and> known_safes (Sentence {|(0, 0)|} 2) = None
      \<and> known_mines (Sentence {|(0, 0)|} 2) = Some {|(0, 0)|}"
    by (simp add: Sentence_def known_mines_def known_safes_def fcard_eval)
  then show ?thesis
    using mined_row_board_constructed mined_row_board_counts mined_row_board_safe_cells
      probe1 probe2 mined_probe3_sentence
    by simp
qed

text \<open>
  Claim C1: the sentence that \<open>add_knowledge\<close> adds carries the reported count minus the
  number of neighbours already in \<open>mines\<close>.  The code passes the reported count on as it
  is.  On the board of one row, after the probes of \<open>(0, 4)\<close> and \<open>(0, 3)\<close> the mine
  \<open>(0, 2)\<close> is known; the probe of \<open>(0, 1)\<close> reports 1, the sentence added is
  \<open>{(0, 0)} = 1\<close> where the adjusted count is 0, and the safe cell \<open>(0, 0)\<close> ends in \<open>mines\<close>.
\<close>

theorem add_knowledge_reported_count:
  "Minesweeper 1 5 1 (0 ## 2 ## sconst 0) = Some (Inr row_board)
   \<and> add_knowledge (MinesweeperAI 1 5) (0, 4) (nearby_mines row_board (0, 4)) = Some probed1
   \<and> add_knowledge probed1 (0, 3) (nearby_mines row_board (0, 3)) = Some probed2
   \<and> mines probed2 = {|(0, 2)|}
   \<and> nearby_mines row_board (0, 1) = 1
   \<and> knowledge (new_sentence
        (ai_mark_safe (probed2\<lparr>moves_made := finsert (0, 1) (moves_made probed2)\<rparr>) (0, 1))
        (0, 1) 1) = [Sentence {|(0, 0)|} 1]
   \<and> adjusted_count
        (ai_mark_safe (probed2\<lparr>moves_made := finsert (0, 1) (moves_made probed2)\<rparr>) (0, 1))
        (0, 1) 1 = 0
   \<and> add_knowledge probed2 (0, 1) 1 = Some probed3
   \<and> (0, 0) |\<in>| mines probed3
   \<and> is_mine row_board (0, 0) = Inr False"
  using row_board_constructed row_board_counts row_board_safe_cells probe1 probe2 probe3
    probe3_sentence probe3_adjusted
  by (simp add: probed2_def probed3_def)

text \<open>
  Claim C4: \<open>safes\<close> and \<open>mines\<close> are disjoint after every call of \<open>add_knowledge\<close>.  On the
  board of one row, each of the four probes is of a cell without a mine and reports the
  board's count for it; after the fourth, \<open>(0, 0)\<close> is in \<open>safes\<close> and in \<open>mines\<close>.
\<close>

theorem safes_mines_overlap:
  "Minesweeper 1 5 1 (0 ## 2 ## sconst 0) = Some (Inr row_board)
   \<and> is_mine row_board (0, 4) = Inr False
   \<and> add_knowledge (MinesweeperAI 1 5) (0, 4) (nearby_mines row_board (0, 4)) = Some probed1
   \<and> is_mine row_board (0, 3) = Inr False
   \<and> add_knowledge probed1 (0, 3) (nearby_mines row_board (0, 3)) = Some probed2
   \<and> is_mine row_board (0, 1) = Inr False
   \<and> add_knowledge probed2 (0, 1) (nearby_mines row_board (0, 1)) = Some probed3
   \<and> is_mine row_board (0, 0) = Inr False
   \<and> add_knowledge probed3 (0, 0) (nearby_mines row_board (0, 0)) = Some probed4
   \<and> safes probed4 |\<inter>| mines probed4 = {|(0, 0)|}"
proof -
  have "safes probed4 |\<inter>| mines probed4 = {|(0, 0)|}"
    by code_simp
  then show ?thesis
    using row_board_constructed row_board_counts row_board_safe_cells probe1 probe2 probe3 probe4
    by simp
qed

section \<open>Board construction\<close>

lemma well_formed_empty:
  "well_formed \<lparr>b_height = h, b_width = w, b_mines = {||}, board = empty_field h w, mines_found = {||}\<rparr>"
  by (simp add: well_formed_def empty_field_def list_all_iff)

lemma well_formed_add_mine:
  assumes "well_formed b" "0 \<le> i" "i < b_height b" "0 \<le> j" "j < b_width b"
  shows "well_formed (add_mine b i j)"
    and "b_height (add_mine b i j) = b_height b"
    and "b_width (add_mine b i j) = b_width b"
  using assms
  by (auto simp: well_formed_def add_mine_def list_all_iff dest!: set_update_subset_insert [THEN subsetD])

lemma randrange_Inr:
  "randrange n rs = Inr (i, rs') \<Longrightarrow> 0 \<le> i \<and> i < n"
  by (auto simp: randrange_def split: if_splits)

lemma randrange_Inl: "randrange n rs = Inl e \<Longrightarrow> n \<le> 0"
  by (auto simp: randrange_def split: if_splits)

lemma placed_add_mine:
  assumes "placed (add_mine b i j) m r" "0 \<le> i \<and> i < b_height b" "0 \<le> j \<and> j < b_width b"
  shows "placed b m r"
  using assms well_formed_add_mine [of b i j]
  by (auto simp: placed_def split: sum.splits)

lemma place_mines_returns:
  assumes "place_mines b m rs = Some r"
  shows "placed b m r"
proof (rule place_mines.raw_induct [where P = "\<lambda>b m rs r. placed b m r", OF _ assms], goal_cases)
  case (1 f b m rs r)
  show ?case
  proof (cases "int (fcard (b_mines b)) \<noteq> m")
    case False
    with 1(2) show ?thesis by (auto simp: placed_def)
  next
    case True
    show ?thesis
    proof (cases "randrange (b_height b) rs")
      case (Inl e)
      with True 1(2) randrange_Inl [OF Inl] show ?thesis by (auto simp: placed_def)
    next
      case (Inr p)
      obtain i rs1 where p: "p = (i, rs1)" by (cases p)
      show ?thesis
      proof (cases "randrange (b_width b) rs1")
        case (Inl e)
        with True 1(2) Inr p randrange_Inl [OF Inl] show ?thesis by (auto simp: placed_def)
      next
        case Inr2: (Inr q)
        obtain j rs2 where q: "q = (j, rs2)" by (cases q)
        from True 1(2) Inr p Inr2 q have call: "f (add_mine b i j) m rs2 = Some r"
          by simp
        have ri: "0 \<le> i \<and> i < b_height b" using randrange_Inr Inr p by blast
        have rj: "0 \<le> j \<and> j < b_width b" using randrange_Inr Inr2 q by blast
        show ?thesis
          using 1(1) [OF call] ri rj by (rule placed_add_mine)
      qed
    qed
  qed
qed


lemma Minesweeper_returns:
  assumes "Minesweeper h w m rs = Some r"
  shows "case r of
           Inl e \<Rightarrow> h \<le> 0 \<or> w \<le> 0
         | Inr b \<Rightarrow> well_formed b \<and> b_height b = h \<and> b_width b = w
                    \<and> int (fcard (b_mines b)) = m \<and> mines_found b = {||}"
proof -
  let ?b0 = "\<lparr>b_height = h, b_width = w, b_mines = {||}, board = empty_field h w, mines_found = {||}\<rparr>"
  from assms obtain r0 where r0: "place_mines ?b0 m rs = Some r0"
    and r: "r = map_sum id (\<lambda>b. b\<lparr>mines_found := {||}\<rparr>) r0"
    by (auto simp: Minesweeper_def)
  from place_mines_returns [OF r0] well_formed_empty [of h w] r show ?thesis
    by (cases r0) (auto simp: well_formed_def placed_def)
qed














section \<open>Reading the board\<close>

lemma subscript_in_range:
  assumes "- int (length xs) \<le> i" "i < int (length xs)"
  shows "subscript xs i = Inr (xs ! nat (i mod int (length xs)))"
proof (cases "0 \<le> i")
  case True
  with assms show ?thesis by (simp add: subscript_def)
next
  case False
  with assms have "(i + int (length xs)) mod int (length xs) = i + int (length xs)"
    by (intro mod_pos_pos_trivial) auto
  then have "i mod int (length xs) = int (length xs) + i"
    by (simp add: add.commute)
  with False assms show ?thesis by (simp add: subscript_def)
qed

lemma subscript_outside:
  assumes "int (length xs) \<le> i \<or> i < - int (length xs)"
  shows "subscript xs i = Inl IndexError"
  using assms by (auto simp: subscript_def)

lemma subscript_error: "subscript xs i = Inl e \<Longrightarrow> e = IndexError"
  by (auto simp: subscript_def split: if_splits)

lemma subscript_member: "subscript xs i = Inr x \<Longrightarrow> x \<in> set xs"
  by (auto simp: subscript_def split: if_splits)

lemma is_mine_in_range:
  assumes "well_formed b" "- b_height b \<le> i" "i < b_height b" "- b_width b \<le> j" "j < b_width b"
  shows "is_mine b (i, j) = Inr (board b ! nat (i mod b_height b) ! nat (j mod b_width b))"
proof -
  from assms have h: "int (length (board b)) = b_height b"
    by (simp add: well_formed_def)
  with assms have row: "subscript (board b) i = Inr (board b ! nat (i mod b_height b))"
    using subscript_in_range [of "board b" i] by simp
  from subscript_member [OF row] assms have "int (length (board b ! nat (i mod b_height b))) = b_width b"
    by (auto simp: well_formed_def list_all_iff)
  with assms show ?thesis
    using subscript_in_range [of "board b ! nat (i mod b_height b)" j] row
    by (simp add: is_mine_def)
qed

lemma is_mine_outside:
  assumes "well_formed b" "b_height b \<le> i \<or> b_width b \<le> j"
  shows "is_mine b (i, j) = Inl IndexError"
proof (cases "subscript (board b) i")
  case (Inl e)
  with subscript_error [OF Inl] show ?thesis by (simp add: is_mine_def)
next
  case (Inr row)
  have "\<not> b_height b \<le> i"
  proof
    assume "b_height b \<le> i"
    with assms have "int (length (board b)) \<le> i \<or> i < - int (length (board b))"
      by (auto simp: well_formed_def)
    from subscript_outside [OF this] Inr show False by simp
  qed
  with assms have j: "b_width b \<le> j" by simp
  from subscript_member [OF Inr] assms have "length row = nat (b_width b)"
    by (auto simp: well_formed_def list_all_iff)
  with j have "int (length row) \<le> j \<or> j < - int (length row)"
    by auto
  from subscript_outside [OF this] Inr show ?thesis by (simp add: is_mine_def)
qed

lemma is_mine_wrapped:
  assumes "well_formed b" "- b_height b \<le> i" "i < b_height b" "- b_width b \<le> j" "j < b_width b"
  shows "is_mine b (i, j) = is_mine b (i mod b_height b, j mod b_width b)"
proof -
  from assms have "0 < b_height b" "0 < b_width b" by linarith+
  then have "- b_height b \<le> i mod b_height b" "i mod b_height b < b_height b"
    "- b_width b \<le> j mod b_width b" "j mod b_width b < b_width b"
    by (simp_all add: order_trans [of _ 0])
  from is_mine_in_range [OF assms(1) this] is_mine_in_range [OF assms] show ?thesis
    by simp
qed

text \<open>
  Claim C10: on every constructed board, \<open>is_mine((i, j))\<close> with \<open>-height \<le> i < height\<close> and
  \<open>-width \<le> j < width\<close> does not fail, a negative coordinate wrapping around: it returns
  the entry of the field at \<open>(i mod height, j mod width)\<close>, as \<open>is_mine\<close> does for that cell;
  with \<open>i \<ge> height\<close> or \<open>j \<ge> width\<close> it raises \<open>IndexError\<close>.
\<close>

theorem is_mine_wraps:
  assumes "Minesweeper h w m rs = Some (Inr b)"
  shows "(- h \<le> i \<and> i < h \<and> - w \<le> j \<and> j < w
           \<longrightarrow> is_mine b (i, j) = Inr (board b ! nat (i mod h) ! nat (j mod w))
             \<and> is_mine b (i, j) = is_mine b (i mod h, j mod w))
       \<and> (h \<le> i \<or> w \<le> j \<longrightarrow> is_mine b (i, j) = Inl IndexError)"
proof -
  from Minesweeper_returns [OF assms] have "well_formed b" "b_height b = h" "b_width b = w"
    by auto
  then show ?thesis
    using is_mine_in_range [of b i j] is_mine_outside [of b i j] is_mine_wrapped [of b i j]
    by blast
qed

theorem is_mine_wraps_witness:
  "Minesweeper 1 5 1 (0 ## 2 ## sconst 0) = Some (Inr row_board)
   \<and> is_mine row_board (- 1, - 3) = Inr True
   \<and> is_mine row_board (- 1, - 3) = is_mine row_board (0, 2)
   \<and> is_mine row_board (0, - 5) = Inr False
   \<and> is_mine row_board (0, 5) = Inl IndexError
   \<and> is_mine row_board (1, 0) = Inl IndexError"
  using row_board_constructed
    is_mine_wraps [OF row_board_constructed, of "- 1" "- 3"]
    is_mine_wraps [OF row_board_constructed, of 0 "- 5"]
    is_mine_wraps [OF row_board_constructed, of 0 5]
    is_mine_wraps [OF row_board_constructed, of 1 0]
  by (auto simp: row_board_def)

section \<open>The marking loops\<close>

lemma mark_safe_then:
  "(mark_safe s x)\<lparr>cells := cells (mark_safe s x) |-| X\<rparr> = s\<lparr>cells := cells s |-| finsert x X\<rparr>"
proof -
  have "cells s |-| {|x|} |-| X = cells s |-| finsert x X" by auto
  moreover have "x |\<notin>| cells s \<Longrightarrow> cells s |-| finsert x X = cells s |-| X" by auto
  ultimately show ?thesis by (simp add: mark_safe_def)
qed

lemma fold_mark_safe:
  "fold (\<lambda>c a. ai_mark_safe a c) xs ai =
     ai\<lparr>safes := safes ai |\<union>| fset_of_list xs,
        knowledge := map (\<lambda>s. s\<lparr>cells := cells s |-| fset_of_list xs\<rparr>) (knowledge ai)\<rparr>"
proof (induction xs arbitrary: ai)
  case Nil
  then show ?case by (simp add: map_idI)
next
  case (Cons x xs)
  have "fold (\<lambda>c a. ai_mark_safe a c) (x # xs) ai = fold (\<lambda>c a. ai_mark_safe a c) xs (ai_mark_safe ai x)"
    by simp
  also have "\<dots> = (ai_mark_safe ai x)\<lparr>safes := safes (ai_mark_safe ai x) |\<union>| fset_of_list xs,
        knowledge := map (\<lambda>s. s\<lparr>cells := cells s |-| fset_of_list xs\<rparr>) (knowledge (ai_mark_safe ai x))\<rparr>"
    by (rule Cons.IH)
  also have "\<dots> = ai\<lparr>safes := safes ai |\<union>| fset_of_list (x # xs),
        knowledge := map (\<lambda>s. s\<lparr>cells := cells s |-| fset_of_list (x # xs)\<rparr>) (knowledge ai)\<rparr>"
    by (simp add: ai_mark_safe_def comp_def mark_safe_then)
  finally show ?case .
qed

lemma mark_mine_then:
  "(mark_mine s x)\<lparr>count := count (mark_mine s x) - int (fcard (cells (mark_mine s x) |\<inter>| X)),
                    cells := cells (mark_mine s x) |-| X\<rparr>
   = s\<lparr>count := count s - int (fcard (cells s |\<inter>| finsert x X)), cells := cells s |-| finsert x X\<rparr>"
proof (cases "x |\<in>| cells s")
  case False
  then have "cells s |\<inter>| finsert x X = cells s |\<inter>| X" "cells s |-| finsert x X = cells s |-| X"
    by auto
  with False show ?thesis by (simp add: mark_mine_def)
next
  case True
  then have eq: "cells s |\<inter>| finsert x X = finsert x ((cells s |-| {|x|}) |\<inter>| X)"
    by auto
  have "x |\<notin>| (cells s |-| {|x|}) |\<inter>| X" by auto
  then have "fcard (cells s |\<inter>| finsert x X) = Suc (fcard ((cells s |-| {|x|}) |\<inter>| X))"
    unfolding eq by (rule fcard_finsert_disjoint)
  moreover have "cells s |-| {|x|} |-| X = cells s |-| finsert x X" by auto
  ultimately show ?thesis using True by (simp add: mark_mine_def)
qed

lemma fold_mark_mine:
  "fold (\<lambda>c a. ai_mark_mine a c) xs ai =
     ai\<lparr>mines := mines ai |\<union>| fset_of_list xs,
        knowledge := map (\<lambda>s. s\<lparr>count := count s - int (fcard (cells s |\<inter>| fset_of_list xs)),
                                 cells := cells s |-| fset_of_list xs\<rparr>) (knowledge ai)\<rparr>"
proof (induction xs arbitrary: ai)
  case Nil
  then show ?case by (simp add: map_idI)
next
  case (Cons x xs)
  have "fold (\<lambda>c a. ai_mark_mine a c) (x # xs) ai = fold (\<lambda>c a. ai_mark_mine a c) xs (ai_mark_mine ai x)"
    by simp
  also have "\<dots> = (ai_mark_mine ai x)\<lparr>mines := mines (ai_mark_mine ai x) |\<union>| fset_of_list xs,
        knowledge := map (\<lambda>s. s\<lparr>count := count s - int (fcard (cells s |\<inter>| fset_of_list xs)),
                                 cells := cells s |-| fset_of_list xs\<rparr>) (knowledge (ai_mark_mine ai x))\<rparr>"
    by (rule Cons.IH)
  also have "\<dots> = ai\<lparr>mines := mines ai |\<union>| fset_of_list (x # xs),
        knowledge := map (\<lambda>s. s\<lparr>count := count s - int (fcard (cells s |\<inter>| fset_of_list (x # xs))),
                                 cells := cells s |-| fset_of_list (x # xs)\<rparr>) (knowledge ai)\<rparr>"
    by (simp add: ai_mark_mine_def comp_def mark_mine_then)
  finally show ?case .
qed

lemma mark_safes_eq:
  "mark_safes ai S =
     ai\<lparr>safes := safes ai |\<union>| S, knowledge := map (\<lambda>s. s\<lparr>cells := cells s |-| S\<rparr>) (knowledge ai)\<rparr>"
  by (simp add: mark_safes_def fold_mark_safe)

lemma mark_mines_eq:
  "mark_mines ai S =
     ai\<lparr>mines := mines ai |\<union>| S,
        knowledge := map (\<lambda>s. s\<lparr>count := count s - int (fcard (cells s |\<inter>| S)),
                                 cells := cells s |-| S\<rparr>) (knowledge ai)\<rparr>"
  by (simp add: mark_mines_def fold_mark_mine)

lemma mark_safes_any_order:
  "fset_of_list xs = S \<Longrightarrow> fold (\<lambda>c a. ai_mark_safe a c) xs ai = mark_safes ai S"
  by (simp add: mark_safes_eq fold_mark_safe)

lemma mark_mines_any_order:
  "fset_of_list xs = S \<Longrightarrow> fold (\<lambda>c a. ai_mark_mine a c) xs ai = mark_mines ai S"
  by (simp add: mark_mines_eq fold_mark_mine)

section \<open>The inference pass\<close>

lemma unknown_iff: "c |\<in>| unknown kb \<longleftrightarrow> (\<exists>s \<in> set kb. c |\<in>| cells s)"
  by (induction kb) auto

lemma unknown_append: "unknown (kb @ kb') = unknown kb |\<union>| unknown kb'"
  by (induction kb) auto

lemma debt_bound: "s \<in> set kb \<Longrightarrow> - count s \<le> int (debt kb)"
proof -
  assume "s \<in> set kb"
  then have "nat (- count s) \<le> debt kb"
    unfolding debt_def by (intro member_le_sum_list) auto
  then show ?thesis by linarith
qed

lemma debt_append: "0 < count s \<Longrightarrow> debt (kb @ [s]) = debt kb"
  by (simp add: debt_def)

lemma finite_cand: "finite (cand kb)"
proof -
  let ?box = "\<lambda>B. (\<lambda>(c, n). Sentence c n) ` (fset (fPow (cells B)) \<times> {1 .. weight (debt kb) B})"
  have "cand kb \<subseteq> (\<Union>B \<in> set kb. ?box B)"
  proof
    fix s assume "s \<in> cand kb"
    then obtain B where B: "B \<in> set kb" "cells s |\<subseteq>| cells B" "0 < count s"
      "weight (debt kb) s \<le> weight (debt kb) B"
      by (auto simp: cand_def)
    have "count s \<le> weight (debt kb) s"
      by (simp add: weight_def)
    with B have "(cells s, count s) \<in> fset (fPow (cells B)) \<times> {1 .. weight (debt kb) B}"
      by auto
    moreover have "s = (\<lambda>(c, n). Sentence c n) (cells s, count s)"
      by (simp add: Sentence_def)
    ultimately have "s \<in> ?box B" by (rule rev_image_eqI)
    with B(1) show "s \<in> (\<Union>B \<in> set kb. ?box B)" by blast
  qed
  moreover have "finite (\<Union>B \<in> set kb. ?box B)" by simp
  ultimately show ?thesis by (rule finite_subset)
qed

lemma cand_append:
  assumes "s \<in> cand kb"
  shows "cand (kb @ [s]) = cand kb"
proof -
  from assms have d: "debt (kb @ [s]) = debt kb"
    by (simp add: cand_def debt_append)
  from assms obtain B where B: "B \<in> set kb" "cells s |\<subseteq>| cells B"
    "weight (debt kb) s \<le> weight (debt kb) B"
    by (auto simp: cand_def)
  show ?thesis
  proof (intro set_eqI iffI)
    fix t assume "t \<in> cand (kb @ [s])"
    then obtain C where t: "cells t \<noteq> {||}" "0 < count t" and C: "C \<in> set kb \<or> C = s"
      "cells t |\<subseteq>| cells C" "weight (debt kb) t \<le> weight (debt kb) C"
      by (auto simp: cand_def d)
    from C B have "\<exists>D \<in> set kb. cells t |\<subseteq>| cells D \<and> weight (debt kb) t \<le> weight (debt kb) D"
      by (metis order_trans)
    with t show "t \<in> cand kb" by (simp add: cand_def)
  next
    fix t assume "t \<in> cand kb"
    then show "t \<in> cand (kb @ [s])" by (auto simp: cand_def d)
  qed
qed

lemma unknown_cand_append:
  assumes "s \<in> cand kb"
  shows "unknown (kb @ [s]) = unknown kb"
proof -
  from assms obtain B where "B \<in> set kb" "cells s |\<subseteq>| cells B"
    by (auto simp: cand_def)
  then have "cells s |\<subseteq>| unknown kb"
    using unknown_iff by blast
  then show ?thesis by (auto simp: unknown_append)
qed

lemma todo_append:
  assumes "s \<in> cand kb" "s \<notin> set kb"
  shows "Suc (todo (kb @ [s])) = todo kb"
proof -
  have "cand (kb @ [s]) - set (kb @ [s]) = (cand kb - set kb) - {s}"
    using cand_append [OF assms(1)] by auto
  then have "todo (kb @ [s]) = card ((cand kb - set kb) - {s})"
    by (simp only: todo_def)
  moreover have "Suc (card ((cand kb - set kb) - {s})) = card (cand kb - set kb)"
    using assms finite_cand [of kb] by (intro card_Suc_Diff1) auto
  ultimately show ?thesis by (simp only: todo_def)
qed

lemma grown_refl: "grown st st"
  by (simp add: grown_def)

lemma grown_trans: "grown st st1 \<Longrightarrow> grown st1 st2 \<Longrightarrow> grown st st2"
  unfolding grown_def by (elim conjE exE) (auto; linarith)

lemma grown_append:
  assumes "s \<in> cand kb" "s \<notin> set kb"
  shows "grown (kb, c) (kb @ [s], 2)"
  using assms todo_append [OF assms]
  by (simp add: grown_def cand_append unknown_cand_append)

lemma infer_append_False: "infer_append st False s = st"
  by (simp add: infer_append_def)

lemma infer_pair_subset:
  assumes "cells A \<noteq> {||}" "cells A |\<subset>| cells B"
  shows "infer_pair st A B = infer_append st True (Sentence (cells B |-| cells A) (count B - count A))"
    and "infer_pair st B A = infer_append st True (Sentence (cells B |-| cells A) (count B - count A))"
proof -
  from assms have 1: "cells A |-| cells B = {||}" and 2: "cells B |-| cells A \<noteq> {||}"
    and 3: "A \<noteq> B" and 4: "cells B \<noteq> {||}"
    by auto
  show "infer_pair st A B = infer_append st True (Sentence (cells B |-| cells A) (count B - count A))"
    using assms(1) 1 2 3 4 by (simp add: infer_pair_def Let_def infer_append_False)
  show "infer_pair st B A = infer_append st True (Sentence (cells B |-| cells A) (count B - count A))"
    using assms(1) 1 2 3 4 by (simp add: infer_pair_def Let_def infer_append_False)
qed

lemma infer_pair_unrelated:
  assumes "\<not> (cells A \<noteq> {||} \<and> cells A |\<subset>| cells B)" "\<not> (cells B \<noteq> {||} \<and> cells B |\<subset>| cells A)"
  shows "infer_pair st A B = st"
proof (cases "A = B \<or> cells A = {||} \<or> cells B = {||}")
  case True
  then show ?thesis by (auto simp: infer_pair_def)
next
  case False
  with assms have "\<not> cells A |\<subset>| cells B" "\<not> cells B |\<subset>| cells A"
    by simp_all
  with False show ?thesis
    by (cases "cells B |\<subseteq>| cells A"; cases "cells A |\<subseteq>| cells B")
      (simp_all add: infer_pair_def Let_def infer_append_False less_le_not_le)
qed

lemma infer_append_grown:
  assumes "s \<in> cand (fst st) \<or> \<not> 0 < count s"
  shows "grown st (infer_append st True s)"
proof (cases "0 < count s \<and> s \<notin> set (fst st)")
  case True
  with assms have "grown (fst st, snd st) (fst st @ [s], 2)"
    by (intro grown_append) auto
  with True show ?thesis by (simp add: infer_append_def)
next
  case False
  then show ?thesis by (auto simp: infer_append_def grown_refl)
qed

lemma derived_cand:
  assumes "A \<in> set kb" "B \<in> set kb" "cells A \<noteq> {||}" "cells A |\<subset>| cells B"
  shows "Sentence (cells B |-| cells A) (count B - count A) \<in> cand kb
         \<or> \<not> 0 < count (Sentence (cells B |-| cells A) (count B - count A))"
proof (cases "0 < count B - count A")
  case False
  then show ?thesis by (simp add: Sentence_def)
next
  case True
  let ?d = "debt kb"
  from assms have sub: "cells A |\<subseteq>| cells B" by auto
  then have "fcard (cells B |-| cells A) = fcard (cells B) - fcard (cells A)"
    by (rule fcard_funion_fsubset)
  moreover have "fcard (cells A) \<le> fcard (cells B)" using sub by (rule fcard_mono)
  moreover have "0 < fcard (cells A)" using assms(3) by (simp add: zero_less_iff_neq_zero)
  ultimately have "int (fcard (cells B |-| cells A)) \<le> int (fcard (cells B)) - 1"
    by linarith
  then have "int ?d * int (fcard (cells B |-| cells A)) \<le> int ?d * (int (fcard (cells B)) - 1)"
    by (intro mult_left_mono) auto
  moreover have "- count A \<le> int ?d" using assms(1) by (rule debt_bound)
  ultimately have "weight ?d (Sentence (cells B |-| cells A) (count B - count A)) \<le> weight ?d B"
    by (simp add: weight_def Sentence_def algebra_simps)
  moreover from assms have "cells B |-| cells A \<noteq> {||}" by auto
  ultimately show ?thesis
    using assms True by (auto simp: cand_def Sentence_def)
qed

lemma infer_pair_grown:
  assumes "A \<in> set (fst st)" "B \<in> set (fst st)"
  shows "grown st (infer_pair st A B)"
proof -
  consider (ab) "cells A \<noteq> {||}" "cells A |\<subset>| cells B"
    | (ba) "cells B \<noteq> {||}" "cells B |\<subset>| cells A"
    | (other) "\<not> (cells A \<noteq> {||} \<and> cells A |\<subset>| cells B)" "\<not> (cells B \<noteq> {||} \<and> cells B |\<subset>| cells A)"
    by blast
  then show ?thesis
  proof cases
    case ab
    with assms show ?thesis
      by (simp add: infer_pair_subset(1) infer_append_grown derived_cand)
  next
    case ba
    with assms show ?thesis
      by (simp add: infer_pair_subset(2) infer_append_grown derived_cand)
  next
    case other
    then show ?thesis by (simp add: infer_pair_unrelated grown_refl)
  qed
qed

lemma grown_member: "grown st st' \<Longrightarrow> A \<in> set (fst st) \<Longrightarrow> A \<in> set (fst st')"
  by (auto simp: grown_def)

lemma infer_inner_terminates:
  assumes "A \<in> set (fst st)"
  shows "\<exists>st'. infer_inner st A j = Some st' \<and> grown st st'"
  using assms
proof (induction n \<equiv> "2 * todo (fst st) + (length (fst st) - j)" arbitrary: st j rule: less_induct)
  case less
  show ?case
  proof (cases "j < length (fst st)")
    case False
    then show ?thesis
      by (subst infer_inner.simps) (simp add: grown_refl)
  next
    case True
    let ?st1 = "infer_pair st A (fst st ! j)"
    from True less.prems have g: "grown st ?st1"
      by (intro infer_pair_grown) auto
    then have "2 * todo (fst ?st1) + (length (fst ?st1) - (j + 1)) < 2 * todo (fst st) + (length (fst st) - j)"
      using True unfolding grown_def by (elim conjE exE disjE) (simp, linarith)
    moreover have "A \<in> set (fst ?st1)"
      using g less.prems by (rule grown_member)
    ultimately obtain st' where "infer_inner ?st1 A (j + 1) = Some st'" "grown ?st1 st'"
      using less.hyps by blast
    with g True show ?thesis
      by (subst infer_inner.simps) (auto intro: grown_trans)
  qed
qed

lemma infer_outer_terminates: "\<exists>st'. infer_outer st i = Some st' \<and> grown st st'"
proof (induction n \<equiv> "todo (fst st) + (length (fst st) - i)" arbitrary: st i rule: less_induct)
  case less
  show ?case
  proof (cases "i < length (fst st)")
    case False
    then show ?thesis
      by (subst infer_outer.simps) (simp add: grown_refl)
  next
    case True
    then obtain st1 where st1: "infer_inner st (fst st ! i) 0 = Some st1" and g: "grown st st1"
      using infer_inner_terminates [of "fst st ! i" st 0] by auto
    then have "todo (fst st1) + (length (fst st1) - (i + 1)) < todo (fst st) + (length (fst st) - i)"
      using True unfolding grown_def by (elim conjE exE disjE) (simp, linarith)
    then obtain st' where "infer_outer st1 (i + 1) = Some st'" "grown st1 st'"
      using less.hyps by blast
    with g True st1 show ?thesis
      by (subst infer_outer.simps) (auto intro: grown_trans)
  qed
qed

lemma closed_pair_sym: "closed_pair kb A B \<Longrightarrow> closed_pair kb B A"
  by (auto simp: closed_pair_def)

lemma closed_pair_mono: "closed_pair kb A B \<Longrightarrow> set kb \<subseteq> set kb' \<Longrightarrow> closed_pair kb' A B"
  by (auto simp: closed_pair_def)

lemma inferred_refl: "inferred kb kb"
  by (simp add: inferred_def)

lemma inferred_subset: "inferred kb kb' \<Longrightarrow> set kb \<subseteq> set kb'"
  by (auto simp: inferred_def)

lemma inferred_nth: "inferred kb kb' \<Longrightarrow> k < length kb \<Longrightarrow> kb' ! k = kb ! k"
  by (auto simp: inferred_def nth_append)

lemma inferred_length: "inferred kb kb' \<Longrightarrow> length kb \<le> length kb'"
  by (auto simp: inferred_def)

lemma inferred_trans:
  assumes "inferred kb kb1" "inferred kb1 kb2"
  shows "inferred kb kb2"
proof -
  from assms(1) obtain n1 where 1: "kb1 = kb @ n1" "distinct n1" "set n1 \<inter> set kb = {}"
    "\<forall>s \<in> set n1. \<exists>A \<in> set kb1. \<exists>B \<in> set kb1. derives A B s"
    unfolding inferred_def by blast
  from assms(2) obtain n2 where 2: "kb2 = kb1 @ n2" "distinct n2" "set n2 \<inter> set kb1 = {}"
    "\<forall>s \<in> set n2. \<exists>A \<in> set kb2. \<exists>B \<in> set kb2. derives A B s"
    unfolding inferred_def by blast
  have "kb2 = kb @ (n1 @ n2)" using 1(1) 2(1) by simp
  moreover have "distinct (n1 @ n2)" using 1(1,2) 2(2,3) by auto
  moreover have "set (n1 @ n2) \<inter> set kb = {}" using 1(1,3) 2(3) by auto
  moreover have "\<forall>s \<in> set (n1 @ n2). \<exists>A \<in> set kb2. \<exists>B \<in> set kb2. derives A B s"
  proof
    fix s assume "s \<in> set (n1 @ n2)"
    then consider "s \<in> set n1" | "s \<in> set n2" by auto
    then show "\<exists>A \<in> set kb2. \<exists>B \<in> set kb2. derives A B s"
    proof cases
      case 1
      with \<open>\<forall>s \<in> set n1. \<exists>A \<in> set kb1. \<exists>B \<in> set kb1. derives A B s\<close>
      obtain A B where "A \<in> set kb1" "B \<in> set kb1" "derives A B s" by blast
      with 2(1) show ?thesis by auto
    next
      case 2
      with \<open>\<forall>s \<in> set n2. \<exists>A \<in> set kb2. \<exists>B \<in> set kb2. derives A B s\<close> show ?thesis by blast
    qed
  qed
  ultimately show ?thesis unfolding inferred_def by blast
qed

lemma infer_append_inferred:
  assumes "derives A B s \<or> \<not> 0 < count s" "A \<in> set (fst st)" "B \<in> set (fst st)"
  shows "inferred (fst st) (fst (infer_append st True s))"
proof (cases "0 < count s \<and> s \<notin> set (fst st)")
  case True
  with assms have "\<exists>A \<in> set (fst st @ [s]). \<exists>B \<in> set (fst st @ [s]). derives A B s"
    by auto
  with True show ?thesis
    by (simp add: infer_append_def inferred_def)
next
  case False
  then show ?thesis by (auto simp: infer_append_def inferred_refl)
qed

lemma infer_append_closed:
  "derives A B s \<Longrightarrow> s \<in> set (fst (infer_append st True s))"
  by (auto simp: infer_append_def derives_def Sentence_def)

lemma derives_cases:
  "cells A \<noteq> {||} \<Longrightarrow> cells A |\<subset>| cells B \<Longrightarrow>
     derives A B (Sentence (cells B |-| cells A) (count B - count A))
     \<or> \<not> 0 < count (Sentence (cells B |-| cells A) (count B - count A))"
  by (simp add: derives_def Sentence_def)

lemma infer_pair_post:
  assumes "A \<in> set (fst st)" "B \<in> set (fst st)"
  shows "inferred (fst st) (fst (infer_pair st A B)) \<and> closed_pair (fst (infer_pair st A B)) A B"
proof -
  let ?D = "\<lambda>A B. Sentence (cells B |-| cells A) (count B - count A)"
  consider (ab) "cells A \<noteq> {||}" "cells A |\<subset>| cells B"
    | (ba) "cells B \<noteq> {||}" "cells B |\<subset>| cells A"
    | (other) "\<not> (cells A \<noteq> {||} \<and> cells A |\<subset>| cells B)" "\<not> (cells B \<noteq> {||} \<and> cells B |\<subset>| cells A)"
    by blast
  then show ?thesis
  proof cases
    case ab
    then have eq: "infer_pair st A B = infer_append st True (?D A B)"
      by (rule infer_pair_subset(1))
    have "inferred (fst st) (fst (infer_append st True (?D A B)))"
      using derives_cases [OF ab] assms by (rule infer_append_inferred)
    moreover have "\<forall>s. derives A B s \<longrightarrow> s \<in> set (fst (infer_append st True (?D A B)))"
      using infer_append_closed [of A B] by (auto simp: derives_def)
    moreover have "\<not> derives B A s" for s
      using ab by (auto simp: derives_def)
    ultimately show ?thesis by (simp add: eq closed_pair_def)
  next
    case ba
    then have eq: "infer_pair st A B = infer_append st True (?D B A)"
      by (rule infer_pair_subset(2))
    have "inferred (fst st) (fst (infer_append st True (?D B A)))"
      using derives_cases [OF ba] assms(2,1) by (rule infer_append_inferred)
    moreover have "\<forall>s. derives B A s \<longrightarrow> s \<in> set (fst (infer_append st True (?D B A)))"
      using infer_append_closed [of B A] by (auto simp: derives_def)
    moreover have "\<not> derives A B s" for s
      using ba by (auto simp: derives_def)
    ultimately show ?thesis by (simp add: eq closed_pair_def)
  next
    case other
    then have "infer_pair st A B = st" by (rule infer_pair_unrelated)
    moreover from other have "\<not> derives A B s" "\<not> derives B A s" for s
      by (auto simp: derives_def)
    ultimately show ?thesis by (simp add: inferred_refl closed_pair_def)
  qed
qed

lemma inner_measure:
  assumes "j < length (fst st)" "grown st st1"
  shows "2 * todo (fst st1) + (length (fst st1) - (j + 1)) < 2 * todo (fst st) + (length (fst st) - j)"
  using assms unfolding grown_def by (elim conjE exE disjE) (simp, linarith)

lemma infer_inner_post:
  assumes "A \<in> set (fst st)" "infer_inner st A j = Some st'"
  shows "inferred (fst st) (fst st')
       \<and> (\<forall>k. j \<le> k \<and> k < length (fst st') \<longrightarrow> closed_pair (fst st') A (fst st' ! k))"
  using assms
proof (induction n \<equiv> "2 * todo (fst st) + (length (fst st) - j)" arbitrary: st j rule: less_induct)
  case less
  show ?case
  proof (cases "j < length (fst st)")
    case False
    with less.prems(2) have "st' = st"
      by (subst (asm) infer_inner.simps) simp
    with False show ?thesis by (auto simp: inferred_refl)
  next
    case True
    let ?B = "fst st ! j"
    let ?st1 = "infer_pair st A ?B"
    from True less.prems have B: "?B \<in> set (fst st)" by simp
    from less.prems(1) B have g: "grown st ?st1" by (rule infer_pair_grown)
    from infer_pair_post [OF less.prems(1) B]
    have inf1: "inferred (fst st) (fst ?st1)" and cl1: "closed_pair (fst ?st1) A ?B"
      by auto
    from less.prems(2) True have call: "infer_inner ?st1 A (j + 1) = Some st'"
      by (subst (asm) infer_inner.simps) simp
    have "A \<in> set (fst ?st1)" using g less.prems(1) by (rule grown_member)
    with less.hyps [OF inner_measure [OF True g] _ call]
    have inf2: "inferred (fst ?st1) (fst st')"
      and cl2: "\<forall>k. j + 1 \<le> k \<and> k < length (fst st') \<longrightarrow> closed_pair (fst st') A (fst st' ! k)"
      by auto
    from inf1 inf2 have inf: "inferred (fst st) (fst st')" by (rule inferred_trans)
    have "closed_pair (fst st') A (fst st' ! k)" if k: "j \<le> k" "k < length (fst st')" for k
    proof (cases "k = j")
      case False
      with k cl2 show ?thesis by simp
    next
      case same: True
      from inf True have "fst st' ! j = ?B" by (rule inferred_nth)
      moreover from cl1 inferred_subset [OF inf2] have "closed_pair (fst st') A ?B"
        by (rule closed_pair_mono)
      ultimately show ?thesis using same by simp
    qed
    with inf show ?thesis by simp
  qed
qed

lemma outer_measure:
  assumes "i < length (fst st)" "grown st st1"
  shows "todo (fst st1) + (length (fst st1) - (i + 1)) < todo (fst st) + (length (fst st) - i)"
  using assms unfolding grown_def by (elim conjE exE disjE) (simp, linarith)

lemma infer_outer_post:
  assumes "infer_outer st i = Some st'"
  shows "inferred (fst st) (fst st')
       \<and> (\<forall>k l. i \<le> k \<and> k < length (fst st') \<and> l < length (fst st')
             \<longrightarrow> closed_pair (fst st') (fst st' ! k) (fst st' ! l))"
  using assms
proof (induction n \<equiv> "todo (fst st) + (length (fst st) - i)" arbitrary: st i rule: less_induct)
  case less
  show ?case
  proof (cases "i < length (fst st)")
    case False
    with less.prems have "st' = st"
      by (subst (asm) infer_outer.simps) simp
    with False show ?thesis by (auto simp: inferred_refl)
  next
    case True
    let ?A = "fst st ! i"
    from True have A: "?A \<in> set (fst st)" by simp
    from infer_inner_terminates [OF A, of 0] obtain st1
      where st1: "infer_inner st ?A 0 = Some st1" and g: "grown st st1" by blast
    from infer_inner_post [OF A st1]
    have inf1: "inferred (fst st) (fst st1)"
      and cl1: "\<forall>l. l < length (fst st1) \<longrightarrow> closed_pair (fst st1) ?A (fst st1 ! l)"
      by auto
    from less.prems True st1 have call: "infer_outer st1 (i + 1) = Some st'"
      by (subst (asm) infer_outer.simps) simp
    from less.hyps [OF outer_measure [OF True g] call]
    have inf2: "inferred (fst st1) (fst st')"
      and cl2: "\<forall>k l. i + 1 \<le> k \<and> k < length (fst st') \<and> l < length (fst st')
                  \<longrightarrow> closed_pair (fst st') (fst st' ! k) (fst st' ! l)"
      by auto
    from inf1 inf2 have inf: "inferred (fst st) (fst st')" by (rule inferred_trans)
    have i1: "i < length (fst st1)" using True inferred_length [OF inf1] by simp
    have "closed_pair (fst st') (fst st' ! k) (fst st' ! l)"
      if kl: "i \<le> k" "k < length (fst st')" "l < length (fst st')" for k l
    proof (cases "k = i")
      case False
      with kl cl2 show ?thesis by simp
    next
      case same: True
      have Ai: "fst st' ! i = ?A" using inf True by (rule inferred_nth)
      show ?thesis
      proof (cases "l < length (fst st1)")
        case True
        with cl1 have "closed_pair (fst st1) ?A (fst st1 ! l)" by simp
        then have "closed_pair (fst st') ?A (fst st1 ! l)"
          using inferred_subset [OF inf2] by (rule closed_pair_mono)
        moreover have "fst st' ! l = fst st1 ! l" using inf2 True by (rule inferred_nth)
        ultimately show ?thesis using same Ai by simp
      next
        case False
        with i1 have "i + 1 \<le> l" by simp
        with cl2 kl have "closed_pair (fst st') (fst st' ! l) (fst st' ! i)"
          using i1 inferred_length [OF inf2] by simp
        then show ?thesis using same by (simp add: closed_pair_sym)
      qed
    qed
    with inf show ?thesis by simp
  qed
qed

lemma infer_outer_closed:
  "\<exists>kb' cycles'. infer_outer (kb, cycles) 0 = Some (kb', cycles')
      \<and> inferred kb kb' \<and> (\<forall>A \<in> set kb'. \<forall>B \<in> set kb'. closed_pair kb' A B)"
proof -
  obtain st' where st': "infer_outer (kb, cycles) 0 = Some st'"
    using infer_outer_terminates by blast
  from infer_outer_post [OF st'] have "inferred kb (fst st')"
    and "\<forall>k l. k < length (fst st') \<and> l < length (fst st')
           \<longrightarrow> closed_pair (fst st') (fst st' ! k) (fst st' ! l)"
    by auto
  then have "inferred kb (fst st') \<and> (\<forall>A \<in> set (fst st'). \<forall>B \<in> set (fst st'). closed_pair (fst st') A B)"
    by (metis in_set_conv_nth)
  with st' show ?thesis by (cases st') auto
qed

text \<open>
  Claim C2: for a pair \<open>(A, B)\<close> of the knowledge base with \<open>A\<close> non-empty and the cells of
  \<open>A\<close> a proper subset of those of \<open>B\<close>, the inference pass appends the sentence with cells
  \<open>B.cells - A.cells\<close> and count \<open>B.count - A.count\<close> exactly when that count is positive and
  no equal sentence is present, whichever of the two is \<open>sentenceA\<close>; the pass ends, every
  sentence it has appended is new and derived so from a pair, and no pair of the result
  is left with its derived sentence missing.  From \<open>{(0,0), (0,1)} = 1\<close> and
  \<open>{(0,0), (0,1), (0,2)} = 2\<close> it derives \<open>{(0,2)} = 1\<close>.
\<close>

theorem inference_pass:
  "(cells A \<noteq> {||} \<and> cells A |\<subset>| cells B \<longrightarrow>
      infer_pair (kb, cycles) A B =
        (if 0 < count B - count A \<and> Sentence (cells B |-| cells A) (count B - count A) \<notin> set kb
         then (kb @ [Sentence (cells B |-| cells A) (count B - count A)], 2) else (kb, cycles))
      \<and> infer_pair (kb, cycles) B A = infer_pair (kb, cycles) A B)
   \<and> (\<exists>kb' cycles'. infer_outer (kb, cycles) 0 = Some (kb', cycles')
         \<and> inferred kb kb' \<and> (\<forall>A \<in> set kb'. \<forall>B \<in> set kb'. closed_pair kb' A B))
   \<and> infer_outer ([Sentence {|(0, 0), (0, 1)|} 1, Sentence {|(0, 0), (0, 1), (0, 2)|} 2], 1) 0
        = Some ([Sentence {|(0, 0), (0, 1)|} 1, Sentence {|(0, 0), (0, 1), (0, 2)|} 2,
                 Sentence {|(0, 2)|} 1], 2)"
proof (intro conjI impI)
  assume "cells A \<noteq> {||} \<and> cells A |\<subset>| cells B"
  then have ab: "cells A \<noteq> {||}" "cells A |\<subset>| cells B" by simp_all
  show "infer_pair (kb, cycles) A B =
        (if 0 < count B - count A \<and> Sentence (cells B |-| cells A) (count B - count A) \<notin> set kb
         then (kb @ [Sentence (cells B |-| cells A) (count B - count A)], 2) else (kb, cycles))"
    by (simp add: infer_pair_subset(1) [OF ab] infer_append_def Sentence_def)
  show "infer_pair (kb, cycles) B A = infer_pair (kb, cycles) A B"
    by (simp only: infer_pair_subset [OF ab])
next
  show "\<exists>kb' cycles'. infer_outer (kb, cycles) 0 = Some (kb', cycles')
         \<and> inferred kb kb' \<and> (\<forall>A \<in> set kb'. \<forall>B \<in> set kb'. closed_pair kb' A B)"
    by (rule infer_outer_closed)
next
  show "infer_outer ([Sentence {|(0, 0), (0, 1)|} 1, Sentence {|(0, 0), (0, 1), (0, 2)|} 2], 1) 0
        = Some ([Sentence {|(0, 0), (0, 1)|} 1, Sentence {|(0, 0), (0, 1), (0, 2)|} 2,
                 Sentence {|(0, 2)|} 1], 2)"
    by code_simp
qed

theorem inference_pass_witness:
  "infer_pair ([Sentence {|(0, 0), (0, 1)|} 1, Sentence {|(0, 0), (0, 1), (0, 2)|} 2], 1)
      (Sentence {|(0, 0), (0, 1)|} 1) (Sentence {|(0, 0), (0, 1), (0, 2)|} 2)
   = ([Sentence {|(0, 0), (0, 1)|} 1, Sentence {|(0, 0), (0, 1), (0, 2)|} 2, Sentence {|(0, 2)|} 1], 2)"
proof -
  have "{|(0 :: int, 0 :: int), (0, 1)|} |\<subset>| {|(0, 0), (0, 1), (0, 2)|}"
    by code_simp
  moreover have "{|(0, 0), (0, 1), (0, 2)|} |-| {|(0, 0), (0, 1)|} = {|(0 :: int, 2 :: int)|}"
    by auto
  ultimately show ?thesis
    using inference_pass [of "Sentence {|(0, 0), (0, 1)|} 1" "Sentence {|(0, 0), (0, 1), (0, 2)|} 2"
        "[Sentence {|(0, 0), (0, 1)|} 1, Sentence {|(0, 0), (0, 1), (0, 2)|} 2]" 1]
    by (simp add: Sentence_def)
qed

section \<open>The fixpoint loop\<close>

lemma advanced_refl: "advanced p p"
  by (simp add: advanced_def)

lemma advanced_trans:
  assumes "advanced p p1" "advanced p1 p2"
  shows "advanced p p2"
proof -
  have "trans (less_than <*lex*> less_than :: ((nat \<times> nat) \<times> (nat \<times> nat)) set)"
    by (intro trans_lex_prod) simp_all
  then show ?thesis
    using assms unfolding advanced_def by (blast dest: transD)
qed

lemma unknown_map_minus:
  assumes "\<And>s. cells (f s) = cells s |-| S"
  shows "unknown (map f kb) = unknown kb |-| S"
  by (induction kb) (auto simp: assms)

lemma unknown_remove1: "unknown (remove1 x kb) |\<subseteq>| unknown kb"
  by (induction kb) auto

lemma progress_nonempty:
  assumes "i < length kb" "cells (kb ! i) \<noteq> {||}" "\<And>s. cells (f s) = cells s |-| cells (kb ! i)"
  shows "(progress (remove1 x (map f kb)), progress kb) \<in> less_than <*lex*> less_than"
proof -
  let ?S = "cells (kb ! i)"
  have "?S |\<subseteq>| unknown kb"
    using assms(1) unknown_iff nth_mem by blast
  with assms(2) have "unknown kb |-| ?S |\<subset>| unknown kb"
    by auto
  moreover have "unknown (remove1 x (map f kb)) |\<subseteq>| unknown kb |-| ?S"
    using unknown_remove1 [of x "map f kb"] unknown_map_minus [of f ?S kb, OF assms(3)] by simp
  ultimately have "unknown (remove1 x (map f kb)) |\<subset>| unknown kb"
    by order
  then have "fcard (unknown (remove1 x (map f kb))) < fcard (unknown kb)"
    by (rule pfsubset_fcard_mono)
  then show ?thesis by (simp add: progress_def)
qed

lemma debt_remove1:
  assumes "s \<in> set kb" "0 \<le> count s"
  shows "debt (remove1 s kb) = debt kb"
  using sum_list_map_remove1 [OF assms(1), of "\<lambda>s. nat (- count s)"] assms(2)
  by (simp add: debt_def)

lemma todo_remove1:
  assumes "s \<in> set kb" "0 \<le> count s" "cells s = {||}"
  shows "todo (remove1 s kb) \<le> todo kb"
proof -
  have "cand (remove1 s kb) \<subseteq> cand kb"
    using set_remove1_subset [of s kb]
    by (auto simp: cand_def debt_remove1 [OF assms(1,2)])
  moreover have "s \<notin> cand (remove1 s kb)"
    using assms(3) by (simp add: cand_def)
  moreover have "set kb \<subseteq> insert s (set (remove1 s kb))"
    by (induction kb) auto
  ultimately have "cand (remove1 s kb) - set (remove1 s kb) \<subseteq> cand kb - set kb"
    by blast
  then show ?thesis
    unfolding todo_def using finite_cand [of kb] by (intro card_mono) auto
qed

lemma progress_empty:
  assumes "s \<in> set kb" "0 \<le> count s" "cells s = {||}"
  shows "(progress (remove1 s kb), progress kb) \<in> less_than <*lex*> less_than"
proof -
  have "fcard (unknown (remove1 s kb)) \<le> fcard (unknown kb)"
    using unknown_remove1 by (rule fcard_mono)
  moreover have "Suc (length (remove1 s kb)) = length kb"
    using assms(1) by (simp add: length_remove1) (metis length_pos_if_in_set Suc_pred)
  moreover note todo_remove1 [OF assms]
  ultimately show ?thesis
    by (auto simp: progress_def)
qed

lemma resolve_step_advanced:
  assumes "i < length (knowledge ai)"
  shows "advanced (ai, cycles) (resolve_step ai i cycles)"
proof -
  let ?kb = "knowledge ai"
  let ?s = "?kb ! i"
  have mem: "?s \<in> set ?kb" using assms by simp
  show ?thesis
  proof (cases "known_safes ?s")
    case (Some ss)
    then have ss: "ss = cells ?s" and c: "count ?s = 0"
      by (auto simp: known_safes_def split: if_splits)
    let ?f = "\<lambda>s. s\<lparr>cells := cells s |-| ss\<rparr>"
    have step: "resolve_step ai i cycles = (retire (mark_safes ai ss) i, 2)"
      using Some by (simp add: resolve_step_def)
    have kb: "knowledge (retire (mark_safes ai ss) i) = remove1 (map ?f ?kb ! i) (map ?f ?kb)"
      by (simp add: retire_def mark_safes_eq)
    have "(progress (knowledge (retire (mark_safes ai ss) i)), progress ?kb)
        \<in> less_than <*lex*> less_than"
    proof (cases "ss = {||}")
      case True
      then have "map ?f ?kb = ?kb" by (simp add: map_idI)
      then have "knowledge (retire (mark_safes ai ss) i) = remove1 ?s ?kb"
        by (simp only: kb)
      moreover have "(progress (remove1 ?s ?kb), progress ?kb) \<in> less_than <*lex*> less_than"
        using mem c ss True by (intro progress_empty) auto
      ultimately show ?thesis by (simp only:)
    next
      case False
      have "(progress (remove1 (map ?f ?kb ! i) (map ?f ?kb)), progress ?kb)
          \<in> less_than <*lex*> less_than"
        using assms False ss by (intro progress_nonempty) auto
      then show ?thesis by (simp only: kb)
    qed
    then show ?thesis by (simp add: advanced_def step)
  next
    case None
    show ?thesis
    proof (cases "known_mines ?s")
      case none: None
      with None show ?thesis by (simp add: resolve_step_def advanced_refl)
    next
      case (Some ms)
      then have ms: "ms = cells ?s" and c: "int (fcard (cells ?s)) \<le> count ?s"
        by (auto simp: known_mines_def split: if_splits)
      let ?f = "\<lambda>s. s\<lparr>count := count s - int (fcard (cells s |\<inter>| ms)), cells := cells s |-| ms\<rparr>"
      have step: "resolve_step ai i cycles = (retire (mark_mines ai ms) i, 2)"
        using None Some by (simp add: resolve_step_def)
      have kb: "knowledge (retire (mark_mines ai ms) i) = remove1 (map ?f ?kb ! i) (map ?f ?kb)"
        by (simp add: retire_def mark_mines_eq)
      have "(progress (knowledge (retire (mark_mines ai ms) i)), progress ?kb)
          \<in> less_than <*lex*> less_than"
      proof (cases "ms = {||}")
        case True
        then have "map ?f ?kb = ?kb" by (simp add: map_idI fcard_fempty)
        then have "knowledge (retire (mark_mines ai ms) i) = remove1 ?s ?kb"
          by (simp only: kb)
        moreover from c ms True have "0 \<le> count ?s" by (simp add: fcard_fempty)
        then have "(progress (remove1 ?s ?kb), progress ?kb) \<in> less_than <*lex*> less_than"
          using mem ms True by (intro progress_empty) auto
        ultimately show ?thesis by (simp only:)
      next
        case False
        have "(progress (remove1 (map ?f ?kb ! i) (map ?f ?kb)), progress ?kb)
            \<in> less_than <*lex*> less_than"
          using assms False ms by (intro progress_nonempty) auto
        then show ?thesis by (simp only: kb)
      qed
      then show ?thesis by (simp add: advanced_def step)
    qed
  qed
qed

lemma resolve_pass_advanced: "advanced (ai, cycles) (resolve_pass ai i cycles)"
proof (induction ai i cycles rule: resolve_pass.induct)
  case (1 ai i cycles)
  show ?case
  proof (cases "i < length (knowledge ai)")
    case False
    then show ?thesis by (simp add: advanced_refl)
  next
    case True
    obtain ai' cycles' where step: "resolve_step ai i cycles = (ai', cycles')"
      by (cases "resolve_step ai i cycles")
    from resolve_step_advanced [OF True, of cycles] step have "advanced (ai, cycles) (ai', cycles')"
      by simp
    moreover from 1 [OF True step [symmetric]] have "advanced (ai', cycles') (resolve_pass ai' (i + 1) cycles')" .
    ultimately have "advanced (ai, cycles) (resolve_pass ai' (i + 1) cycles')"
      by (rule advanced_trans)
    with True step show ?thesis by simp
  qed
qed

lemma infer_pass_terminates: "\<exists>p'. infer_pass p = Some p' \<and> advanced p p'"
proof -
  obtain st' where st': "infer_outer (knowledge (fst p), snd p) 0 = Some st'"
    and g: "grown (knowledge (fst p), snd p) st'"
    using infer_outer_terminates by blast
  let ?p' = "((fst p)\<lparr>knowledge := fst st'\<rparr>, snd st')"
  have "advanced p ?p'"
  proof (cases "st' = (knowledge (fst p), snd p)")
    case True
    then have "?p' = p" by simp
    then show ?thesis by (simp only: advanced_refl)
  next
    case False
    with g have "snd st' = 2" "length (knowledge (fst p)) < length (fst st')"
      "unknown (fst st') = unknown (knowledge (fst p))"
      "todo (fst st') + length (fst st') = todo (knowledge (fst p)) + length (knowledge (fst p))"
      by (auto simp: grown_def)
    then show ?thesis
      by (auto simp: advanced_def progress_def)
  qed
  with st' show ?thesis by (simp add: infer_pass_def)
qed

lemma fixpoint_loop_terminates:
  assumes "cycles \<le> 1"
  shows "\<exists>ai'. fixpoint_loop ai cycles = Some ai'"
proof -
  have "wf (inv_image (less_than <*lex*> less_than) (\<lambda>ai. progress (knowledge ai)))"
    by (intro wf_inv_image wf_lex_prod wf_less_than)
  then show ?thesis
    using assms
  proof (induction ai arbitrary: cycles rule: wf_induct_rule)
    case (less ai)
    show ?case
    proof (cases "cycles > 0")
      case False
      then show ?thesis by (subst fixpoint_loop.simps) simp
    next
      case True
      obtain p where p: "infer_pass (resolve_pass ai 0 cycles) = Some p"
        and "advanced (resolve_pass ai 0 cycles) p"
        using infer_pass_terminates by blast
      with resolve_pass_advanced [of ai cycles 0] have adv: "advanced (ai, cycles) p"
        by (blast intro: advanced_trans)
      have "\<exists>ai'. fixpoint_loop (fst p) (snd p - 1) = Some ai'"
      proof (cases "p = (ai, cycles)")
        case same: True
        with less.prems True have "snd p - 1 \<le> 0" by simp
        then show ?thesis by (subst fixpoint_loop.simps) simp
      next
        case False
        with adv have "snd p = 2"
          and "(fst p, ai) \<in> inv_image (less_than <*lex*> less_than) (\<lambda>ai. progress (knowledge ai))"
          by (auto simp: advanced_def)
        then show ?thesis using less.IH [of "fst p" "snd p - 1"] by simp
      qed
      with True p show ?thesis by (subst fixpoint_loop.simps) simp
    qed
  qed
qed

text \<open>
  Claim C6: \<open>add_knowledge\<close> always returns: from every state, for every cell and every
  count, each inference pass ends and the \<open>while\<close> loop makes finitely many turns.
\<close>

theorem add_knowledge_terminates: "\<exists>ai'. add_knowledge ai c n = Some ai'"
  by (simp add: add_knowledge_def Let_def fixpoint_loop_terminates)

end
